theory Spec2Isabelle
  imports Main "HOL-Library.AList"
begin

section \<open>The elevator controller of src/Elevator/elevator.py\<close>

subsection \<open>Data\<close>

text \<open>
  \<open>class Direction(IntEnum)\<close>: the two members and their integer values. A command is
  compared with a member by value (\<open>command == Direction.UP\<close>).
\<close>

datatype Direction = UP | DOWN

fun direction_value :: "Direction \<Rightarrow> int" where
  "direction_value UP = 11"
| "direction_value DOWN = 12"

text \<open>
  The fields set by \<open>__init__\<close>. Floors are Python integers; \<open>direction\<close> is
  \<open>None\<close> until the first route is computed.
\<close>

record ElevatorController =
  current_floor :: int
  max_floor :: int
  direction :: "Direction option"
  stops :: "int list"

definition init :: "int \<Rightarrow> int \<Rightarrow> ElevatorController" where
  "init initial_floor maxf =
     \<lparr>current_floor = initial_floor, max_floor = maxf, direction = None, stops = []\<rparr>"

text \<open>
  The dictionary returned by \<open>_parse_commands\<close>. A Python dict keeps its keys in insertion
  order and an assignment to a key that is present replaces the value in place: this is
  \<open>AList.update\<close> on an association list. The value of a hall request is the target floor
  or \<open>None\<close>.
\<close>

record Requests =
  up_requests :: "(int \<times> int option) list"
  down_requests :: "(int \<times> int option) list"
  internal_requests :: "int list"

subsection \<open>\<open>_parse_commands\<close>\<close>

text \<open>The body of the \<open>for location, command in commands\<close> loop.\<close>

fun parse_step :: "Requests \<Rightarrow> int \<times> int \<Rightarrow> Requests" where
  "parse_step r (location, command) =
     (if location = 11 then
        r\<lparr>internal_requests := internal_requests r @ [command]\<rparr>
      else if command = direction_value UP then
        r\<lparr>up_requests := AList.update location None (up_requests r)\<rparr>
      else if command = direction_value DOWN then
        r\<lparr>down_requests := AList.update location None (down_requests r)\<rparr>
      else if command > location then
        r\<lparr>up_requests := AList.update location (Some command) (up_requests r)\<rparr>
      else
        r\<lparr>down_requests := AList.update location (Some command) (down_requests r)\<rparr>)"

definition parse_commands :: "(int \<times> int) list \<Rightarrow> Requests" where
  "parse_commands commands =
     foldl parse_step \<lparr>up_requests = [], down_requests = [], internal_requests = []\<rparr> commands"

subsection \<open>\<open>_determine_initial_direction\<close>\<close>

definition determine_initial_direction ::
  "ElevatorController \<Rightarrow> int list \<Rightarrow> int list \<Rightarrow> int list \<Rightarrow> Direction" where
  "determine_initial_direction self up_floors down_floors internal_floors =
     (let up_count = length (filter (\<lambda>f. f \<ge> current_floor self) up_floors);
          down_count = length (filter (\<lambda>f. f \<le> current_floor self) down_floors);
          internal_up = length (filter (\<lambda>f. f > current_floor self) internal_floors);
          internal_down = length (filter (\<lambda>f. f < current_floor self) internal_floors);
          total_up = up_count + internal_up;
          total_down = down_count + internal_down
      in if total_up \<ge> total_down then UP else DOWN)"

subsection \<open>\<open>_calculate_optimal_route\<close>\<close>

text \<open>
  The body of the two loops that fill \<open>all_stops\<close>: the floor is added, then its target when
  \<open>if target:\<close> holds, that is when the target is neither \<open>None\<close> nor \<open>0\<close>. The floors
  iterated over are the keys of the same dictionary, so the lookup cannot miss; a miss
  would add nothing more.
\<close>

definition add_stop :: "(int \<times> int option) list \<Rightarrow> int set \<Rightarrow> int \<Rightarrow> int set" where
  "add_stop reqs all_stops floor =
     (case map_of reqs floor of
        Some (Some target) \<Rightarrow>
          if target \<noteq> 0 then insert target (insert floor all_stops) else insert floor all_stops
      | _ \<Rightarrow> insert floor all_stops)"

text \<open>Lines 110 to 130: the set \<open>all_stops\<close> as it stands before the route is built.\<close>

definition collect_stops :: "Requests \<Rightarrow> int list \<Rightarrow> int list \<Rightarrow> int list \<Rightarrow> int \<Rightarrow> int set" where
  "collect_stops requests up_floors down_floors internal_floors current =
     (let all_stops = {};
          all_stops = foldl (add_stop (up_requests requests)) all_stops up_floors;
          all_stops = foldl (add_stop (down_requests requests)) all_stops down_floors;
          all_stops = all_stops \<union> set internal_floors
      in all_stops - {current})"

text \<open>
  Lines 133 to 147. A list comprehension over the set followed by \<open>sorted\<close> is the sorted
  list of the filtered set; \<open>reverse=True\<close> on distinct integers is the reversed list.
\<close>

definition scan_route :: "Direction option \<Rightarrow> int \<Rightarrow> int set \<Rightarrow> int list" where
  "scan_route dir current all_stops =
     (if dir = Some UP \<or> (dir = None \<and> (\<exists>f\<in>all_stops. f > current)) then
        (let up_stops = sorted_list_of_set (Set.filter (\<lambda>f. f > current) all_stops);
             down_stops = rev (sorted_list_of_set (Set.filter (\<lambda>f. f < current) all_stops))
         in up_stops @ down_stops)
      else
        (let down_stops = rev (sorted_list_of_set (Set.filter (\<lambda>f. f < current) all_stops));
             up_stops = sorted_list_of_set (Set.filter (\<lambda>f. f > current) all_stops)
         in down_stops @ up_stops))"

text \<open>
  The whole method: the updated controller (only \<open>self.direction\<close> is ever assigned) and
  the returned route.
\<close>

definition calculate_optimal_route ::
  "ElevatorController \<Rightarrow> Requests \<Rightarrow> ElevatorController \<times> int list" where
  "calculate_optimal_route self requests =
     (let up_floors = sort (map fst (up_requests requests));
          down_floors = rev (sort (map fst (down_requests requests)));
          internal_floors = sorted_list_of_set (set (internal_requests requests));
          self' = (if direction self = None then
                     self\<lparr>direction :=
                       Some (determine_initial_direction self up_floors down_floors internal_floors)\<rparr>
                   else self);
          current = current_floor self';
          all_stops = collect_stops requests up_floors down_floors internal_floors current
      in (self', scan_route (direction self') current all_stops))"

subsection \<open>\<open>process_commands\<close>\<close>

definition process_commands ::
  "ElevatorController \<Rightarrow> (int \<times> int) list \<Rightarrow> ElevatorController \<times> int list" where
  "process_commands self commands =
     (let requests = parse_commands commands
      in calculate_optimal_route self requests)"

subsection \<open>\<open>simulate\<close> and later calls\<close>

text \<open>
  What a caller can do to a controller between construction and any later moment:
  present a batch (\<open>process_commands\<close>), or move the car to a floor, as the loop of
  \<open>simulate\<close> does with \<open>self.current_floor = floor\<close>.
\<close>

datatype event = Batch "(int \<times> int) list" | Move int

fun run :: "ElevatorController \<Rightarrow> event list \<Rightarrow> ElevatorController" where
  "run self [] = self"
| "run self (Batch commands # evs) = run (fst (process_commands self commands)) evs"
| "run self (Move floor # evs) = run (self\<lparr>current_floor := floor\<rparr>) evs"

section \<open>Notions of the specification\<close>

text \<open>
  A valid request: the origin is a floor of \<open>1..MaxFloor\<close> or the cab sentinel \<open>11\<close>, the
  command is a floor of \<open>1..MaxFloor\<close> or one of the direction markers \<open>11\<close>, \<open>12\<close>.
\<close>

definition valid_request :: "int \<Rightarrow> int \<times> int \<Rightarrow> bool" where
  "valid_request maxf rq =
     (((1 \<le> fst rq \<and> fst rq \<le> maxf) \<or> fst rq = 11) \<and>
      ((1 \<le> snd rq \<and> snd rq \<le> maxf) \<or> snd rq = 11 \<or> snd rq = 12))"

definition valid_batch :: "int \<Rightarrow> (int \<times> int) list \<Rightarrow> bool" where
  "valid_batch maxf commands = list_all (valid_request maxf) commands"

text \<open>
  The StopSet of the specification: hall-up origins, their known destinations, hall-down
  origins, their known destinations and the cab destinations, without the current floor.
\<close>

definition StopSet :: "Requests \<Rightarrow> int \<Rightarrow> int set" where
  "StopSet r current =
     (fst ` set (up_requests r) \<union> Option.these (snd ` set (up_requests r)) \<union>
      fst ` set (down_requests r) \<union> Option.these (snd ` set (down_requests r)) \<union>
      set (internal_requests r)) - {current}"

text \<open>
  The number of places of a sequence of floors where travel turns round: an interior floor
  that is higher than both neighbours or lower than both.
\<close>

fun reversals :: "int list \<Rightarrow> nat" where
  "reversals (a # b # c # fs) =
     (if (a < b \<and> c < b) \<or> (b < a \<and> b < c) then 1 else 0) + reversals (b # c # fs)"
| "reversals fs = 0"

text \<open>
  No hall request records the target \<open>0\<close>, the one integer target that \<open>if target:\<close>
  skips.
\<close>

definition no_zero_target :: "Requests \<Rightarrow> bool" where
  "no_zero_target r \<longleftrightarrow>
     Some 0 \<notin> snd ` set (up_requests r) \<and> Some 0 \<notin> snd ` set (down_requests r)"

text \<open>
  The two totals the specification compares when the direction is unset: hall-up origins at
  or above the current floor plus cab destinations strictly above it, and hall-down origins
  at or below it plus cab destinations strictly below it.
\<close>

definition total_up :: "Requests \<Rightarrow> int \<Rightarrow> nat" where
  "total_up r current =
     card (Set.filter (\<lambda>f. current \<le> f) (fst ` set (up_requests r))) +
     card (Set.filter (\<lambda>f. current < f) (set (internal_requests r)))"

definition total_down :: "Requests \<Rightarrow> int \<Rightarrow> nat" where
  "total_down r current =
     card (Set.filter (\<lambda>f. f \<le> current) (fst ` set (down_requests r))) +
     card (Set.filter (\<lambda>f. f < current) (set (internal_requests r)))"

section \<open>Auxiliary facts\<close>

lemma parse_commands_snoc:
  "parse_commands (commands @ [rq]) = parse_step (parse_commands commands) rq"
  by (simp add: parse_commands_def)

lemma parse_step_keys_distinct:
  assumes "distinct (map fst (up_requests r))" "distinct (map fst (down_requests r))"
  shows "distinct (map fst (up_requests (parse_step r rq))) \<and>
         distinct (map fst (down_requests (parse_step r rq)))"
  using assms by (cases rq) (simp add: AList.distinct_update)

lemma parse_commands_keys_distinct:
  "distinct (map fst (up_requests (parse_commands commands))) \<and>
   distinct (map fst (down_requests (parse_commands commands)))"
proof (induction commands rule: rev_induct)
  case Nil
  show ?case by (simp add: parse_commands_def)
next
  case (snoc rq commands)
  then show ?case
    unfolding parse_commands_snoc by (intro parse_step_keys_distinct) simp_all
qed

lemma lookup_of_key:
  "floor \<in> set (sort (map fst reqs)) \<Longrightarrow> map_of reqs floor \<noteq> None"
  "floor \<in> set (rev (sort (map fst reqs))) \<Longrightarrow> map_of reqs floor \<noteq> None"
  by (simp_all add: map_of_eq_None_iff)

lemma foldl_add_stop:
  "foldl (add_stop reqs) A fs =
     A \<union> set fs \<union> {t. \<exists>f\<in>set fs. map_of reqs f = Some (Some t) \<and> t \<noteq> 0}"
proof (induction fs arbitrary: A)
  case Nil
  show ?case by simp
next
  case (Cons f fs)
  show ?case
    unfolding foldl_Cons Cons.IH
    by (auto simp: add_stop_def split: option.splits if_splits)
qed

lemma targets_of_keys:
  assumes "distinct (map fst reqs)"
  shows "{t. \<exists>f\<in>fst ` set reqs. map_of reqs f = Some (Some t) \<and> t \<noteq> 0} =
         Option.these (snd ` set reqs) - {0}"
  using assms by (force simp: Option.in_these_eq)

lemma collect_stops_eq:
  assumes "distinct (map fst (up_requests r))" "distinct (map fst (down_requests r))"
  shows "collect_stops r (sort (map fst (up_requests r))) (rev (sort (map fst (down_requests r))))
           (sorted_list_of_set (set (internal_requests r))) current =
         (fst ` set (up_requests r) \<union> (Option.these (snd ` set (up_requests r)) - {0}) \<union>
          fst ` set (down_requests r) \<union> (Option.these (snd ` set (down_requests r)) - {0}) \<union>
          set (internal_requests r)) - {current}"
proof -
  have u: "{t. \<exists>f\<in>set (sort (map fst (up_requests r))).
              map_of (up_requests r) f = Some (Some t) \<and> t \<noteq> 0} =
           Option.these (snd ` set (up_requests r)) - {0}"
    using targets_of_keys [OF assms(1)] by simp
  have d: "{t. \<exists>f\<in>set (rev (sort (map fst (down_requests r)))).
              map_of (down_requests r) f = Some (Some t) \<and> t \<noteq> 0} =
           Option.these (snd ` set (down_requests r)) - {0}"
    using targets_of_keys [OF assms(2)] by simp
  show ?thesis
    unfolding collect_stops_def Let_def foldl_add_stop u d by auto
qed

lemma finite_foldl_add_stop: "finite A \<Longrightarrow> finite (foldl (add_stop reqs) A fs)"
  by (induction fs arbitrary: A) (simp_all add: add_stop_def split: option.splits)

lemma finite_collect_stops: "finite (collect_stops r us ds is current)"
  by (simp add: collect_stops_def Let_def finite_foldl_add_stop)

lemma current_notin_collect_stops: "current \<notin> collect_stops r us ds is current"
  by (simp add: collect_stops_def Let_def)

lemma set_scan_route:
  assumes "finite A" "current \<notin> A"
  shows "set (scan_route dir current A) = A"
proof -
  have split: "Set.filter (\<lambda>f. f > current) A \<union> Set.filter (\<lambda>f. f < current) A = A"
    using assms(2) by (auto simp: not_less_iff_gr_or_eq)
  have "set (scan_route dir current A) =
          Set.filter (\<lambda>f. f > current) A \<union> Set.filter (\<lambda>f. f < current) A"
    using assms(1) by (auto simp: scan_route_def Let_def)
  then show ?thesis using split by simp
qed

lemma distinct_scan_route:
  assumes "finite A"
  shows "distinct (scan_route dir current A)"
  using assms by (auto simp: scan_route_def Let_def)


lemma snd_set_update: "snd ` set (AList.update k v al) \<subseteq> insert v (snd ` set al)"
  by (induction al) auto

lemma parse_step_no_zero_target:
  assumes "no_zero_target r" "valid_request maxf rq"
  shows "no_zero_target (parse_step r rq)"
proof -
  obtain location command where rq: "rq = (location, command)" by (cases rq)
  have c: "command \<noteq> 0" using assms(2) by (auto simp: rq valid_request_def)
  have "Some 0 \<notin> snd ` set (AList.update location v al)"
    if "Some 0 \<notin> snd ` set al" "v \<noteq> Some 0" for v al
    using that snd_set_update [of location v al] by blast
  then show ?thesis
    using assms(1) c by (auto simp: rq no_zero_target_def)
qed

lemma parse_commands_no_zero_target:
  "valid_batch maxf commands \<Longrightarrow> no_zero_target (parse_commands commands)"
proof (induction commands rule: rev_induct)
  case Nil
  show ?case by (simp add: parse_commands_def no_zero_target_def)
next
  case (snoc rq commands)
  then show ?case
    unfolding parse_commands_snoc
    by (intro parse_step_no_zero_target [where maxf = maxf]) (simp_all add: valid_batch_def)
qed

lemma route_of_process_commands:
  "snd (process_commands self commands) =
     scan_route (direction (fst (process_commands self commands))) (current_floor self)
       (collect_stops (parse_commands commands)
          (sort (map fst (up_requests (parse_commands commands))))
          (rev (sort (map fst (down_requests (parse_commands commands)))))
          (sorted_list_of_set (set (internal_requests (parse_commands commands))))
          (current_floor self))"
  by (simp add: process_commands_def calculate_optimal_route_def Let_def)

lemma set_route_of_process_commands:
  "set (snd (process_commands self commands)) =
     (fst ` set (up_requests (parse_commands commands)) \<union>
      (Option.these (snd ` set (up_requests (parse_commands commands))) - {0}) \<union>
      fst ` set (down_requests (parse_commands commands)) \<union>
      (Option.these (snd ` set (down_requests (parse_commands commands))) - {0}) \<union>
      set (internal_requests (parse_commands commands))) - {current_floor self}"
proof -
  let ?r = "parse_commands commands"
  let ?A = "collect_stops ?r (sort (map fst (up_requests ?r)))
              (rev (sort (map fst (down_requests ?r))))
              (sorted_list_of_set (set (internal_requests ?r))) (current_floor self)"
  have "set (snd (process_commands self commands)) = ?A"
    unfolding route_of_process_commands
    by (rule set_scan_route) (rule finite_collect_stops, rule current_notin_collect_stops)
  also have "?A = (fst ` set (up_requests ?r) \<union> (Option.these (snd ` set (up_requests ?r)) - {0}) \<union>
      fst ` set (down_requests ?r) \<union> (Option.these (snd ` set (down_requests ?r)) - {0}) \<union>
      set (internal_requests ?r)) - {current_floor self}"
    using parse_commands_keys_distinct [of commands] by (intro collect_stops_eq) simp_all
  finally show ?thesis .
qed

lemma distinct_route_of_process_commands: "distinct (snd (process_commands self commands))"
  unfolding route_of_process_commands by (simp add: distinct_scan_route finite_collect_stops)

lemma reversals_increasing: "sorted_wrt (<) fs \<Longrightarrow> reversals fs = 0"
  by (induction fs rule: reversals.induct) auto

lemma reversals_decreasing: "sorted_wrt (>) fs \<Longrightarrow> reversals fs = 0"
  by (induction fs rule: reversals.induct) auto

lemma reversals_Cons_decreasing:
  assumes "sorted_wrt (>) ds"
  shows "reversals (a # ds) \<le> 1"
proof (cases ds)
  case Nil
  then show ?thesis by simp
next
  case (Cons b ds')
  then show ?thesis
    using reversals_decreasing [OF assms] by (cases ds') auto
qed

lemma reversals_Cons_increasing:
  assumes "sorted_wrt (<) us"
  shows "reversals (a # us) \<le> 1"
proof (cases us)
  case Nil
  then show ?thesis by simp
next
  case (Cons b us')
  then show ?thesis
    using reversals_increasing [OF assms] by (cases us') auto
qed

lemma reversals_up_then_down:
  assumes "sorted_wrt (<) us" "sorted_wrt (>) ds"
  shows "reversals (us @ ds) \<le> 1"
  using assms
proof (induction us)
  case Nil
  then show ?case by (simp add: reversals_decreasing)
next
  case (Cons a us)
  show ?case
  proof (cases us)
    case Nil
    then show ?thesis using reversals_Cons_decreasing [OF Cons.prems(2)] by simp
  next
    case us: (Cons b us')
    have ab: "a < b" using Cons.prems(1) us by simp
    have ih: "reversals (b # us' @ ds) \<le> 1"
      using Cons.IH Cons.prems us by simp
    show ?thesis
    proof (cases "us' @ ds")
      case Nil
      then show ?thesis using us by simp
    next
      case rest: (Cons c fs)
      show ?thesis
      proof (cases "c < b")
        case True
        have "us' = []"
        proof (cases us')
          case Nil then show ?thesis .
        next
          case (Cons x xs)
          then have "b < c" using Cons.prems(1) us rest by simp
          then show ?thesis using True by simp
        qed
        then have "sorted_wrt (>) (b # c # fs)"
          using rest Cons.prems(2) True by auto
        then have "reversals (b # c # fs) = 0" by (rule reversals_decreasing)
        then show ?thesis using us rest ab by simp
      next
        case False
        then show ?thesis using us rest ab ih by simp
      qed
    qed
  qed
qed

lemma reversals_down_then_up:
  assumes "sorted_wrt (>) ds" "sorted_wrt (<) us"
  shows "reversals (ds @ us) \<le> 1"
  using assms
proof (induction ds)
  case Nil
  then show ?case by (simp add: reversals_increasing)
next
  case (Cons a ds)
  show ?case
  proof (cases ds)
    case Nil
    then show ?thesis using reversals_Cons_increasing [OF Cons.prems(2)] by simp
  next
    case ds: (Cons b ds')
    have ab: "b < a" using Cons.prems(1) ds by simp
    have ih: "reversals (b # ds' @ us) \<le> 1"
      using Cons.IH Cons.prems ds by simp
    show ?thesis
    proof (cases "ds' @ us")
      case Nil
      then show ?thesis using ds by simp
    next
      case rest: (Cons c fs)
      show ?thesis
      proof (cases "b < c")
        case True
        have "ds' = []"
        proof (cases ds')
          case Nil then show ?thesis .
        next
          case (Cons x xs)
          then have "c < b" using Cons.prems(1) ds rest by simp
          then show ?thesis using True by simp
        qed
        then have "sorted_wrt (<) (b # c # fs)"
          using rest Cons.prems(2) True by auto
        then have "reversals (b # c # fs) = 0" by (rule reversals_increasing)
        then show ?thesis using ds rest ab by simp
      next
        case False
        then show ?thesis using ds rest ab ih by simp
      qed
    qed
  qed
qed


lemma direction_after_process_commands:
  "direction (fst (process_commands self commands)) =
     (case direction self of
        None \<Rightarrow> Some (determine_initial_direction self
                 (sort (map fst (up_requests (parse_commands commands))))
                 (rev (sort (map fst (down_requests (parse_commands commands)))))
                 (sorted_list_of_set (set (internal_requests (parse_commands commands)))))
      | Some d \<Rightarrow> Some d)"
  by (simp add: process_commands_def calculate_optimal_route_def Let_def split: option.splits)

lemma scan_route_runs:
  fixes A :: "int set" and current :: int
  assumes "finite A"
  defines "ups \<equiv> sorted_list_of_set (Set.filter (\<lambda>f. f > current) A)"
    and "downs \<equiv> rev (sorted_list_of_set (Set.filter (\<lambda>f. f < current) A))"
  shows "scan_route (Some UP) current A = ups @ downs"
    and "scan_route (Some DOWN) current A = downs @ ups"
    and "sorted_wrt (<) (current # ups)"
    and "sorted_wrt (>) (current # downs)"
    and "filter (\<lambda>f. current < f) (ups @ downs) = ups"
    and "filter (\<lambda>f. f < current) (ups @ downs) = downs"
    and "filter (\<lambda>f. current < f) (downs @ ups) = ups"
    and "filter (\<lambda>f. f < current) (downs @ ups) = downs"
proof -
  have fin: "finite (Set.filter (\<lambda>f. f > current) A)" "finite (Set.filter (\<lambda>f. f < current) A)"
    using assms(1) by simp_all
  show "scan_route (Some UP) current A = ups @ downs"
    and "scan_route (Some DOWN) current A = downs @ ups"
    by (simp_all add: scan_route_def ups_def downs_def)
  have sa: "set ups = Set.filter (\<lambda>f. f > current) A"
    and sb: "set downs = Set.filter (\<lambda>f. f < current) A"
    using fin by (simp_all add: ups_def downs_def)
  show "sorted_wrt (<) (current # ups)"
    using sa by (simp add: ups_def strict_sorted_list_of_set)
  show "sorted_wrt (>) (current # downs)"
    using sb by (simp add: downs_def sorted_wrt_rev strict_sorted_list_of_set)
  have a: "\<forall>f\<in>set ups. current < f" "\<forall>f\<in>set ups. \<not> f < current"
    using sa by auto
  have b: "\<forall>f\<in>set downs. f < current" "\<forall>f\<in>set downs. \<not> current < f"
    using sb by auto
  show "filter (\<lambda>f. current < f) (ups @ downs) = ups"
    and "filter (\<lambda>f. f < current) (ups @ downs) = downs"
    and "filter (\<lambda>f. current < f) (downs @ ups) = ups"
    and "filter (\<lambda>f. f < current) (downs @ ups) = downs"
    using a b by simp_all
qed

lemma length_filter_card:
  "distinct fs \<Longrightarrow> length (filter P fs) = card (Set.filter P (set fs))"
  by (simp add: distinct_length_filter Int_def conj_commute)

lemma determine_initial_direction_counts:
  assumes "distinct (map fst (up_requests r))" "distinct (map fst (down_requests r))"
  shows "determine_initial_direction self (sort (map fst (up_requests r)))
           (rev (sort (map fst (down_requests r))))
           (sorted_list_of_set (set (internal_requests r))) =
         (if total_up r (current_floor self) \<ge> total_down r (current_floor self) then UP else DOWN)"
proof -
  have u: "length (filter P (sort (map fst (up_requests r)))) =
             card (Set.filter P (fst ` set (up_requests r)))" for P
    using assms(1) by (simp add: length_filter_card)
  have d: "length (filter P (rev (sort (map fst (down_requests r))))) =
             card (Set.filter P (fst ` set (down_requests r)))" for P
    using assms(2) by (simp add: length_filter_card)
  have i: "length (filter P (sorted_list_of_set (set (internal_requests r)))) =
             card (Set.filter P (set (internal_requests r)))" for P
    by (simp add: length_filter_card)
  show ?thesis
    unfolding determine_initial_direction_def Let_def u d i total_up_def total_down_def ..
qed

lemma parse_commands_append:
  "parse_commands (earlier @ later) = foldl parse_step (parse_commands earlier) later"
  by (simp add: parse_commands_def)

lemma parse_step_grows:
  "fst ` set (up_requests r) \<subseteq> fst ` set (up_requests (parse_step r rq))"
  "fst ` set (down_requests r) \<subseteq> fst ` set (down_requests (parse_step r rq))"
  "set (internal_requests r) \<subseteq> set (internal_requests (parse_step r rq))"
  by (cases rq; auto simp: AList.dom_update)+

lemma foldl_parse_step_grows:
  "fst ` set (up_requests r) \<subseteq> fst ` set (up_requests (foldl parse_step r later))"
  "fst ` set (down_requests r) \<subseteq> fst ` set (down_requests (foldl parse_step r later))"
  "set (internal_requests r) \<subseteq> set (internal_requests (foldl parse_step r later))"
proof (induction later arbitrary: r)
  case Nil
  { case 1 show ?case by simp }
  { case 2 show ?case by simp }
  { case 3 show ?case by simp }
next
  case (Cons rq later)
  { case 1 show ?case using parse_step_grows(1) [of r rq] Cons.IH(1) [of "parse_step r rq"] by simp }
  { case 2 show ?case using parse_step_grows(2) [of r rq] Cons.IH(2) [of "parse_step r rq"] by simp }
  { case 3 show ?case using parse_step_grows(3) [of r rq] Cons.IH(3) [of "parse_step r rq"] by simp }
qed

lemma parse_step_records:
  "location = 11 \<Longrightarrow> command \<in> set (internal_requests (parse_step r (location, command)))"
  "location \<noteq> 11 \<Longrightarrow>
     location \<in> fst ` set (up_requests (parse_step r (location, command))) \<union>
                fst ` set (down_requests (parse_step r (location, command)))"
  by (auto simp: AList.dom_update)


lemma parse_commands_records:
  assumes "(location, command) \<in> set commands"
  shows "location = 11 \<Longrightarrow> command \<in> set (internal_requests (parse_commands commands))"
    and "location \<noteq> 11 \<Longrightarrow>
           location \<in> fst ` set (up_requests (parse_commands commands)) \<union>
                      fst ` set (down_requests (parse_commands commands))"
proof -
  obtain earlier later where c: "commands = earlier @ (location, command) # later"
    using assms by (meson split_list)
  let ?r = "parse_step (parse_commands earlier) (location, command)"
  have p: "parse_commands commands = foldl parse_step ?r later"
    unfolding c parse_commands_append by simp
  show "command \<in> set (internal_requests (parse_commands commands))" if "location = 11"
    using parse_step_records(1) [OF that, of command "parse_commands earlier"]
      foldl_parse_step_grows(3) [of ?r later]
    unfolding p by blast
  show "location \<in> fst ` set (up_requests (parse_commands commands)) \<union>
                   fst ` set (down_requests (parse_commands commands))" if "location \<noteq> 11"
    using parse_step_records(2) [OF that, of "parse_commands earlier" command]
      foldl_parse_step_grows(1,2) [of ?r later]
    unfolding p by blast
qed

lemma parse_step_degenerate:
  "floor \<noteq> 11 \<Longrightarrow> floor \<in> fst ` set (down_requests (parse_step r (floor, floor)))"
  by (simp add: AList.dom_update)

lemma parse_commands_degenerate:
  assumes "(floor, floor) \<in> set commands" "floor \<noteq> 11"
  shows "floor \<in> fst ` set (down_requests (parse_commands commands))"
proof -
  obtain earlier later where c: "commands = earlier @ (floor, floor) # later"
    using assms(1) by (meson split_list)
  let ?r = "parse_step (parse_commands earlier) (floor, floor)"
  have p: "parse_commands commands = foldl parse_step ?r later"
    unfolding c parse_commands_append by simp
  show ?thesis
    using parse_step_degenerate [OF assms(2), of "parse_commands earlier"]
      foldl_parse_step_grows(2) [of ?r later]
    unfolding p by blast
qed



lemma set_route_subset_StopSet:
  "set (snd (process_commands self commands)) \<subseteq>
     StopSet (parse_commands commands) (current_floor self)"
  unfolding set_route_of_process_commands StopSet_def by auto

lemma run_keeps_direction:
  "direction self = Some d \<Longrightarrow> direction (run self events) = Some d"
proof (induction self events rule: run.induct)
  case (1 self)
  then show ?case by simp
next
  case (2 self commands evs)
  have "direction (fst (process_commands self commands)) = Some d"
    using 2(2) by (simp add: direction_after_process_commands)
  then show ?case using 2(1) by simp
next
  case (3 self floor evs)
  then show ?case by simp
qed

lemma route_of_valid_batch:
  assumes "valid_batch maxf commands"
  shows "snd (process_commands self commands) =
           scan_route (direction (fst (process_commands self commands))) (current_floor self)
             (StopSet (parse_commands commands) (current_floor self))"
proof -
  let ?r = "parse_commands commands"
  have "no_zero_target ?r"
    using assms by (rule parse_commands_no_zero_target)
  then have z: "0 \<notin> Option.these (snd ` set (up_requests ?r))"
    "0 \<notin> Option.these (snd ` set (down_requests ?r))"
    by (simp_all add: no_zero_target_def Option.in_these_eq)
  have "collect_stops ?r (sort (map fst (up_requests ?r))) (rev (sort (map fst (down_requests ?r))))
          (sorted_list_of_set (set (internal_requests ?r))) (current_floor self) =
        StopSet ?r (current_floor self)"
    using parse_commands_keys_distinct [of commands] z
    by (simp add: collect_stops_eq StopSet_def)
  then show ?thesis
    using route_of_process_commands [of self commands] by simp
qed

lemma scan_route_10_357: "scan_route dir 10 {3, 5, 7} = [7, 5, 3]"
proof (cases dir)
  case None
  have "scan_route None 10 {3, 5, 7} = [7, 5, 3]" by code_simp
  then show ?thesis using None by simp
next
  case (Some d)
  have "scan_route (Some UP) 10 {3, 5, 7} = [7, 5, 3]"
    and "scan_route (Some DOWN) 10 {3, 5, 7} = [7, 5, 3]"
    by code_simp+
  then show ?thesis using Some by (cases d) simp_all
qed

lemma scan_route_4_up: "scan_route (Some UP) 4 {3, 5, 7, 10} = [5, 7, 10, 3]"
  by code_simp

section \<open>The claims\<close>

text \<open>
  C1. For every valid batch the route returned by \<open>process_commands\<close> contains exactly
  the floors of the StopSet built from the classified requests (hall-up origins, their known
  destinations, hall-down origins, their known destinations, cab destinations, minus the
  current floor), each of them once.
\<close>

theorem process_commands_visits_StopSet:
  assumes "valid_batch (max_floor self) commands"
  shows "set (snd (process_commands self commands)) =
           StopSet (parse_commands commands) (current_floor self) \<and>
         distinct (snd (process_commands self commands))"
proof -
  have "no_zero_target (parse_commands commands)"
    using assms by (rule parse_commands_no_zero_target)
  then have "0 \<notin> Option.these (snd ` set (up_requests (parse_commands commands)))"
    and "0 \<notin> Option.these (snd ` set (down_requests (parse_commands commands)))"
    by (simp_all add: no_zero_target_def Option.in_these_eq)
  then show ?thesis
    by (simp add: set_route_of_process_commands distinct_route_of_process_commands StopSet_def)
qed

theorem process_commands_visits_StopSet_witness:
  "valid_batch (max_floor (init 1 10)) [(5, 12), (10, 12), (3, 12), (7, 11), (11, 7), (2, 6)] \<and>
   set (snd (process_commands (init 1 10) [(5, 12), (10, 12), (3, 12), (7, 11), (11, 7), (2, 6)])) =
     StopSet (parse_commands [(5, 12), (10, 12), (3, 12), (7, 11), (11, 7), (2, 6)])
       (current_floor (init 1 10)) \<and>
   distinct (snd (process_commands (init 1 10) [(5, 12), (10, 12), (3, 12), (7, 11), (11, 7), (2, 6)])) \<and>
   snd (process_commands (init 1 10) [(5, 12), (10, 12), (3, 12), (7, 11), (11, 7), (2, 6)]) =
     [2, 3, 5, 6, 7, 10]"
proof -
  have v: "valid_batch (max_floor (init 1 10)) [(5, 12), (10, 12), (3, 12), (7, 11), (11, 7), (2, 6)]"
    by code_simp
  have r: "snd (process_commands (init 1 10) [(5, 12), (10, 12), (3, 12), (7, 11), (11, 7), (2, 6)]) =
     [2, 3, 5, 6, 7, 10]"
    by code_simp
  show ?thesis using v r process_commands_visits_StopSet [OF v] by simp
qed

text \<open>
  C2. The route of every batch is made of at most two monotone runs: the floors above the
  current floor in strictly ascending order and the floors below it in strictly descending
  order, the ascending run first when the direction held after the call is \<open>UP\<close>, the
  descending run first when it is \<open>DOWN\<close>; so travel turns round at most once, along the
  route and also when the current floor is put in front of it.
\<close>

theorem process_commands_two_runs:
  fixes self :: ElevatorController and commands :: "(int \<times> int) list"
  defines "route \<equiv> snd (process_commands self commands)"
    and "dir \<equiv> direction (fst (process_commands self commands))"
    and "current \<equiv> current_floor self"
  shows "sorted_wrt (<) (filter (\<lambda>f. current < f) route) \<and>
         sorted_wrt (>) (filter (\<lambda>f. f < current) route) \<and>
         (dir = Some UP \<and>
            route = filter (\<lambda>f. current < f) route @ filter (\<lambda>f. f < current) route \<or>
          dir = Some DOWN \<and>
            route = filter (\<lambda>f. f < current) route @ filter (\<lambda>f. current < f) route) \<and>
         reversals route \<le> 1 \<and> reversals (current # route) \<le> 1"
proof -
  let ?r = "parse_commands commands"
  define A where "A = collect_stops ?r (sort (map fst (up_requests ?r)))
              (rev (sort (map fst (down_requests ?r))))
              (sorted_list_of_set (set (internal_requests ?r))) current"
  define ups where "ups = sorted_list_of_set (Set.filter (\<lambda>f. f > current) A)"
  define downs where "downs = rev (sorted_list_of_set (Set.filter (\<lambda>f. f < current) A))"
  have fin: "finite A" unfolding A_def by (rule finite_collect_stops)
  note runs = scan_route_runs [OF fin, of current, folded ups_def downs_def]
  have route: "route = scan_route dir current A"
    unfolding route_def dir_def current_def A_def by (rule route_of_process_commands)
  have up: "sorted_wrt (<) ups" and down: "sorted_wrt (>) downs"
    using runs(3,4) by simp_all
  have dir: "dir = Some UP \<or> dir = Some DOWN"
    unfolding dir_def direction_after_process_commands
    by (cases "direction self"; simp) (metis Direction.exhaust)+
  then show ?thesis
  proof
    assume d: "dir = Some UP"
    then have r: "route = ups @ downs" using route runs(1) by simp
    have "reversals (ups @ downs) \<le> 1"
      using up down by (rule reversals_up_then_down)
    moreover have "reversals ((current # ups) @ downs) \<le> 1"
      using runs(3) down by (rule reversals_up_then_down)
    ultimately show ?thesis using d r up down runs(5,6) by simp
  next
    assume d: "dir = Some DOWN"
    then have r: "route = downs @ ups" using route runs(2) by simp
    have "reversals (downs @ ups) \<le> 1"
      using down up by (rule reversals_down_then_up)
    moreover have "reversals ((current # downs) @ ups) \<le> 1"
      using runs(4) up by (rule reversals_down_then_up)
    ultimately show ?thesis using d r up down runs(7,8) by simp
  qed
qed

theorem process_commands_two_runs_witness:
  "snd (process_commands (init 4 10) [(5, 12), (10, 12), (3, 12), (7, 11)]) = [5, 7, 10, 3] \<and>
   direction (fst (process_commands (init 4 10) [(5, 12), (10, 12), (3, 12), (7, 11)])) = Some UP \<and>
   reversals (4 # snd (process_commands (init 4 10) [(5, 12), (10, 12), (3, 12), (7, 11)])) \<le> 1"
proof -
  have r: "snd (process_commands (init 4 10) [(5, 12), (10, 12), (3, 12), (7, 11)]) = [5, 7, 10, 3]"
    by code_simp
  have d: "direction (fst (process_commands (init 4 10) [(5, 12), (10, 12), (3, 12), (7, 11)])) = Some UP"
    by code_simp
  have c: "current_floor (init 4 10) = 4" by (simp add: init_def)
  show ?thesis
    using r d process_commands_two_runs [of "init 4 10" "[(5, 12), (10, 12), (3, 12), (7, 11)]"]
    unfolding c by simp
qed

text \<open>
  C7. When the direction is unset, the direction stored by \<open>process_commands\<close> is \<open>UP\<close>
  exactly when the number of hall-up origins at or above the current floor plus the number
  of cab destinations strictly above it is at least the number of hall-down origins at or
  below it plus the number of cab destinations strictly below it, and \<open>DOWN\<close> otherwise.
\<close>

theorem unset_direction_resolved_by_counts:
  assumes "direction self = None"
  shows "direction (fst (process_commands self commands)) =
           Some (if total_up (parse_commands commands) (current_floor self)
                      \<ge> total_down (parse_commands commands) (current_floor self)
                 then UP else DOWN)"
  using assms parse_commands_keys_distinct [of commands]
  by (simp add: direction_after_process_commands determine_initial_direction_counts)

theorem unset_direction_resolved_by_counts_witness:
  "direction (init 10 10) = None \<and>
   total_up (parse_commands [(5, 12), (10, 12), (3, 11), (7, 11)]) 10 = 0 \<and>
   total_down (parse_commands [(5, 12), (10, 12), (3, 11), (7, 11)]) 10 = 2 \<and>
   direction (fst (process_commands (init 10 10) [(5, 12), (10, 12), (3, 11), (7, 11)])) = Some DOWN"
proof -
  have n: "direction (init 10 10) = None" by (simp add: init_def)
  have c: "current_floor (init 10 10) = 10" by (simp add: init_def)
  have u: "total_up (parse_commands [(5, 12), (10, 12), (3, 11), (7, 11)]) 10 = 0" by code_simp
  have d: "total_down (parse_commands [(5, 12), (10, 12), (3, 11), (7, 11)]) 10 = 2" by code_simp
  show ?thesis
    using n u d unset_direction_resolved_by_counts [OF n, of "[(5, 12), (10, 12), (3, 11), (7, 11)]"]
    unfolding c by simp
qed

text \<open>
  C3, as stated, fails: \<open>_parse_commands\<close> has no range check and no \<open>raise\<close>. The
  batch \<open>[(0, 99)]\<close> is not valid for \<open>MaxFloor = 10\<close>, yet it is classified as a hall-up
  request from floor 0 to floor 99 and the controller at floor 1 schedules both floors.
\<close>

theorem invalid_batch_is_classified:
  "\<not> valid_batch 10 [(0, 99)] \<and>
   parse_commands [(0, 99)] =
     \<lparr>up_requests = [(0, Some 99)], down_requests = [], internal_requests = []\<rparr> \<and>
   snd (process_commands (init 1 10) [(0, 99)]) = [99, 0]"
  by code_simp

text \<open>
  C3, amended. Classification validates nothing and never fails: every request of every
  batch, in range or not, is recorded. A request whose origin is \<open>11\<close> adds its command
  to the cab calls; any other request makes its origin a key of the hall-up or of the
  hall-down dictionary.
\<close>

theorem every_request_is_classified:
  assumes "(location, command) \<in> set commands"
  shows "(location = 11 \<longrightarrow> command \<in> set (internal_requests (parse_commands commands))) \<and>
         (location \<noteq> 11 \<longrightarrow>
            location \<in> fst ` set (up_requests (parse_commands commands)) \<union>
                       fst ` set (down_requests (parse_commands commands)))"
  using parse_commands_records [OF assms] by blast

theorem every_request_is_classified_witness:
  "\<not> valid_batch 10 [(0, 99), (11, -3)] \<and>
   0 \<in> fst ` set (up_requests (parse_commands [(0, 99), (11, -3)])) \<union>
       fst ` set (down_requests (parse_commands [(0, 99), (11, -3)])) \<and>
   -3 \<in> set (internal_requests (parse_commands [(0, 99), (11, -3)]))"
proof -
  have v: "\<not> valid_batch 10 [(0, 99), (11, -3)]" by code_simp
  have a: "(0, 99) \<in> set [(0, 99), (11, -3 :: int)]" by simp
  have b: "(11, -3) \<in> set [(0, 99), (11, -3 :: int)]" by simp
  show ?thesis
    using v every_request_is_classified [OF a] every_request_is_classified [OF b] by simp
qed

text \<open>
  C4, as stated, fails: a hall request whose command is its own floor takes the \<open>else\<close>
  branch of \<open>if command > location\<close> and becomes a hall-down entry with that floor as
  target. From floor 1 the batch \<open>[(5, 5)]\<close> yields the route \<open>[5]\<close>.
\<close>

theorem degenerate_request_is_scheduled:
  "parse_commands [(5, 5)] =
     \<lparr>up_requests = [], down_requests = [(5, Some 5)], internal_requests = []\<rparr> \<and>
   snd (process_commands (init 1 10) [(5, 5)]) = [5]"
  by code_simp

text \<open>
  C4, amended. A hall request whose command equals its origin is not dropped: its origin
  is a key of the hall-down dictionary of the classified batch, and the floor is on the
  scheduled route whenever it differs from the current floor.
\<close>

theorem degenerate_request_is_hall_down:
  assumes "(floor, floor) \<in> set commands" "floor \<noteq> 11"
  shows "floor \<in> fst ` set (down_requests (parse_commands commands)) \<and>
         (floor \<noteq> current_floor self \<longrightarrow> floor \<in> set (snd (process_commands self commands)))"
  using parse_commands_degenerate [OF assms]
  by (simp add: set_route_of_process_commands)

theorem degenerate_request_is_hall_down_witness:
  "(5, 5) \<in> set [(7, 11), (5, 5 :: int)] \<and> (5 :: int) \<noteq> 11 \<and>
   5 \<in> fst ` set (down_requests (parse_commands [(7, 11), (5, 5)])) \<and>
   5 \<noteq> current_floor (init 1 10) \<and>
   5 \<in> set (snd (process_commands (init 1 10) [(7, 11), (5, 5)]))"
proof -
  have a: "(5, 5) \<in> set [(7, 11), (5, 5 :: int)]" by simp
  have b: "(5 :: int) \<noteq> 11" by simp
  have c: "5 \<noteq> current_floor (init 1 10)" by (simp add: init_def)
  show ?thesis
    using a b c degenerate_request_is_hall_down [OF a b, of "init 1 10"] by simp
qed




text \<open>
  C6, as stated, fails: the direction is resolved and stored (lines 102 to 105) before the
  stops are looked at. The empty batch given to a fresh controller returns the empty route
  and leaves the direction \<open>UP\<close>.
\<close>

theorem empty_batch_sets_direction:
  "StopSet (parse_commands []) (current_floor (init 1 10)) = {} \<and>
   direction (init 1 10) = None \<and>
   process_commands (init 1 10) [] = ((init 1 10)\<lparr>direction := Some UP\<rparr>, [])"
  by code_simp

text \<open>
  C6, amended. For every state and every batch whose StopSet is empty the route is empty.
  A direction that is already set is left as it is; an unset direction is resolved from
  the batch as for any other batch and stored, and for the empty batch it becomes \<open>UP\<close>.
\<close>

theorem empty_StopSet_empty_route:
  assumes "StopSet (parse_commands commands) (current_floor self) = {}"
  shows "snd (process_commands self commands) = [] \<and>
         (direction self \<noteq> None \<longrightarrow>
            direction (fst (process_commands self commands)) = direction self) \<and>
         (direction self = None \<longrightarrow>
            direction (fst (process_commands self commands)) =
              Some (if total_up (parse_commands commands) (current_floor self)
                         \<ge> total_down (parse_commands commands) (current_floor self)
                    then UP else DOWN)) \<and>
         (direction self = None \<and> commands = [] \<longrightarrow>
            direction (fst (process_commands self commands)) = Some UP)"
proof -
  have "snd (process_commands self commands) = []"
    using set_route_subset_StopSet [of self commands] assms by simp
  moreover have "direction (fst (process_commands self commands)) = direction self"
    if "direction self \<noteq> None"
    using that by (auto simp: direction_after_process_commands)
  moreover have d: "direction (fst (process_commands self commands)) =
              Some (if total_up (parse_commands commands) (current_floor self)
                         \<ge> total_down (parse_commands commands) (current_floor self)
                    then UP else DOWN)"
    if "direction self = None"
    using that parse_commands_keys_distinct [of commands]
    by (simp add: direction_after_process_commands determine_initial_direction_counts)
  moreover have "direction (fst (process_commands self commands)) = Some UP"
    if "direction self = None" "commands = []"
    using d [OF that(1)] that(2) by (simp add: parse_commands_def total_up_def total_down_def)
  ultimately show ?thesis by blast
qed

theorem empty_StopSet_empty_route_witness:
  "StopSet (parse_commands [(5, 12), (11, 5)]) (current_floor (init 5 10)) = {} \<and>
   direction (init 5 10) = None \<and>
   snd (process_commands (init 5 10) [(5, 12), (11, 5)]) = [] \<and>
   direction (fst (process_commands (init 5 10) [(5, 12), (11, 5)])) = Some DOWN"
proof -
  have a: "StopSet (parse_commands [(5, 12), (11, 5)]) (current_floor (init 5 10)) = {}"
    by code_simp
  have n: "direction (init 5 10) = None" by (simp add: init_def)
  have u: "total_up (parse_commands [(5, 12), (11, 5)]) (current_floor (init 5 10)) = 0"
    by code_simp
  have d: "total_down (parse_commands [(5, 12), (11, 5)]) (current_floor (init 5 10)) = 1"
    by code_simp
  show ?thesis
    using a n empty_StopSet_empty_route [OF a] unfolding u d by simp
qed

text \<open>
  C8, as stated, fails on the direction: the StopSet does not decide it. At floor 10 the
  valid batches \<open>[(3, 11), (5, 11), (7, 11)]\<close> and \<open>[(3, 5), (5, 7)]\<close> have the StopSet
  \<open>{3, 5, 7}\<close>, their up and down totals tie at 0, and the direction resolves to \<open>UP\<close>;
  the route is \<open>[7, 5, 3]\<close> all the same.
\<close>

theorem same_stops_resolve_up:
  "valid_batch 10 [(3, 11), (5, 11), (7, 11)] \<and>
   current_floor (init 10 10) = 10 \<and>
   StopSet (parse_commands [(3, 11), (5, 11), (7, 11)]) 10 = {3, 5, 7} \<and>
   process_commands (init 10 10) [(3, 11), (5, 11), (7, 11)] =
     ((init 10 10)\<lparr>direction := Some UP\<rparr>, [7, 5, 3]) \<and>
   valid_batch 10 [(3, 5), (5, 7)] \<and>
   StopSet (parse_commands [(3, 5), (5, 7)]) 10 = {3, 5, 7} \<and>
   process_commands (init 10 10) [(3, 5), (5, 7)] =
     ((init 10 10)\<lparr>direction := Some UP\<rparr>, [7, 5, 3])"
  by code_simp

text \<open>
  C8, amended. For every valid batch, at floor 10 with StopSet \<open>{3, 5, 7}\<close> the route
  is \<open>[7, 5, 3]\<close> whatever the direction, and at floor 4 with StopSet \<open>{3, 5, 7, 10}\<close>
  and direction \<open>UP\<close> after the call it is \<open>[5, 7, 10, 3]\<close>. The batches of tests 4.4 and
  4.5 in \<open>main\<close> have these StopSets; on a fresh controller the first resolves the
  direction to \<open>DOWN\<close> and the second to \<open>UP\<close>.
\<close>

theorem regression_routes:
  "(valid_batch (max_floor self) commands \<and> current_floor self = 10 \<and>
    StopSet (parse_commands commands) 10 = {3, 5, 7} \<longrightarrow>
      snd (process_commands self commands) = [7, 5, 3]) \<and>
   (valid_batch (max_floor self) commands \<and> current_floor self = 4 \<and>
    StopSet (parse_commands commands) 4 = {3, 5, 7, 10} \<and>
    direction (fst (process_commands self commands)) = Some UP \<longrightarrow>
      snd (process_commands self commands) = [5, 7, 10, 3]) \<and>
   StopSet (parse_commands [(5, 12), (10, 12), (3, 11), (7, 11)]) 10 = {3, 5, 7} \<and>
   process_commands (init 10 10) [(5, 12), (10, 12), (3, 11), (7, 11)] =
     ((init 10 10)\<lparr>direction := Some DOWN\<rparr>, [7, 5, 3]) \<and>
   StopSet (parse_commands [(5, 12), (10, 12), (3, 12), (7, 11)]) 4 = {3, 5, 7, 10} \<and>
   process_commands (init 4 10) [(5, 12), (10, 12), (3, 12), (7, 11)] =
     ((init 4 10)\<lparr>direction := Some UP\<rparr>, [5, 7, 10, 3])"
proof -
  have a: "snd (process_commands self commands) = [7, 5, 3]"
    if "valid_batch (max_floor self) commands" "current_floor self = 10"
      "StopSet (parse_commands commands) 10 = {3, 5, 7}"
    using route_of_valid_batch [OF that(1), of self] that(2,3) by (simp add: scan_route_10_357)
  have b: "snd (process_commands self commands) = [5, 7, 10, 3]"
    if "valid_batch (max_floor self) commands" "current_floor self = 4"
      "StopSet (parse_commands commands) 4 = {3, 5, 7, 10}"
      "direction (fst (process_commands self commands)) = Some UP"
    using route_of_valid_batch [OF that(1), of self] that(2,3,4) by (simp add: scan_route_4_up)
  have c: "StopSet (parse_commands [(5, 12), (10, 12), (3, 11), (7, 11)]) 10 = {3, 5, 7}"
    "process_commands (init 10 10) [(5, 12), (10, 12), (3, 11), (7, 11)] =
       ((init 10 10)\<lparr>direction := Some DOWN\<rparr>, [7, 5, 3])"
    "StopSet (parse_commands [(5, 12), (10, 12), (3, 12), (7, 11)]) 4 = {3, 5, 7, 10}"
    "process_commands (init 4 10) [(5, 12), (10, 12), (3, 12), (7, 11)] =
       ((init 4 10)\<lparr>direction := Some UP\<rparr>, [5, 7, 10, 3])"
    by code_simp+
  show ?thesis using a b c by blast
qed

theorem regression_routes_witness:
  "valid_batch (max_floor (init 10 10)) [(3, 11), (5, 11), (7, 11)] \<and>
   current_floor (init 10 10) = 10 \<and>
   StopSet (parse_commands [(3, 11), (5, 11), (7, 11)]) 10 = {3, 5, 7} \<and>
   snd (process_commands (init 10 10) [(3, 11), (5, 11), (7, 11)]) = [7, 5, 3] \<and>
   valid_batch (max_floor (init 4 10)) [(5, 12), (10, 12), (3, 12), (7, 11)] \<and>
   current_floor (init 4 10) = 4 \<and>
   StopSet (parse_commands [(5, 12), (10, 12), (3, 12), (7, 11)]) 4 = {3, 5, 7, 10} \<and>
   direction (fst (process_commands (init 4 10) [(5, 12), (10, 12), (3, 12), (7, 11)])) = Some UP \<and>
   snd (process_commands (init 4 10) [(5, 12), (10, 12), (3, 12), (7, 11)]) = [5, 7, 10, 3]"
proof -
  have v1: "valid_batch (max_floor (init 10 10)) [(3, 11), (5, 11), (7, 11)]" by code_simp
  have f1: "current_floor (init 10 10) = 10" by (simp add: init_def)
  have s1: "StopSet (parse_commands [(3, 11), (5, 11), (7, 11)]) 10 = {3, 5, 7}" by code_simp
  have v2: "valid_batch (max_floor (init 4 10)) [(5, 12), (10, 12), (3, 12), (7, 11)]" by code_simp
  have f2: "current_floor (init 4 10) = 4" by (simp add: init_def)
  have s2: "StopSet (parse_commands [(5, 12), (10, 12), (3, 12), (7, 11)]) 4 = {3, 5, 7, 10}"
    by code_simp
  have d2: "direction (fst (process_commands (init 4 10) [(5, 12), (10, 12), (3, 12), (7, 11)]))
              = Some UP"
    by code_simp
  show ?thesis
    using v1 f1 s1 v2 f2 s2 d2
      regression_routes [of "init 10 10" "[(3, 11), (5, 11), (7, 11)]"]
      regression_routes [of "init 4 10" "[(5, 12), (10, 12), (3, 12), (7, 11)]"]
    by blast
qed

text \<open>
  C9, as stated, fails on the direction: a fresh controller given \<open>[(5, 12)]\<close> comes back
  with direction \<open>UP\<close>.
\<close>

theorem process_commands_sets_direction:
  "fst (process_commands (init 1 10) [(5, 12)]) = (init 1 10)\<lparr>direction := Some UP\<rparr> \<and>
   direction (fst (process_commands (init 1 10) [(5, 12)])) \<noteq> direction (init 1 10)"
  by code_simp

text \<open>
  C9, amended. \<open>process_commands\<close> never changes \<open>current_floor\<close>, \<open>max_floor\<close> or
  \<open>stops\<close>, and it leaves the whole controller unchanged when a direction is already
  set; the only field it writes is an unset direction, which becomes the direction
  resolved from the batch.
\<close>

theorem process_commands_changes_direction_only:
  "current_floor (fst (process_commands self commands)) = current_floor self \<and>
   max_floor (fst (process_commands self commands)) = max_floor self \<and>
   stops (fst (process_commands self commands)) = stops self \<and>
   (direction self \<noteq> None \<longrightarrow> fst (process_commands self commands) = self) \<and>
   (direction self = None \<longrightarrow>
      fst (process_commands self commands) =
        self\<lparr>direction :=
          Some (if total_up (parse_commands commands) (current_floor self)
                     \<ge> total_down (parse_commands commands) (current_floor self)
                then UP else DOWN)\<rparr>)"
proof -
  have kept: "fst (process_commands self commands) = self" if "direction self \<noteq> None"
    using that by (simp add: process_commands_def calculate_optimal_route_def Let_def)
  have resolved: "fst (process_commands self commands) =
        self\<lparr>direction :=
          Some (if total_up (parse_commands commands) (current_floor self)
                     \<ge> total_down (parse_commands commands) (current_floor self)
                then UP else DOWN)\<rparr>"
    if "direction self = None"
    using that parse_commands_keys_distinct [of commands]
    by (simp add: process_commands_def calculate_optimal_route_def Let_def
          determine_initial_direction_counts)
  have frame: "current_floor (fst (process_commands self commands)) = current_floor self"
    "max_floor (fst (process_commands self commands)) = max_floor self"
    "stops (fst (process_commands self commands)) = stops self"
    by (simp_all add: process_commands_def calculate_optimal_route_def Let_def)
  show ?thesis using kept resolved frame by blast
qed

theorem process_commands_changes_direction_only_witness:
  "direction ((init 4 10)\<lparr>direction := Some DOWN\<rparr>) \<noteq> None \<and>
   fst (process_commands ((init 4 10)\<lparr>direction := Some DOWN\<rparr>) [(5, 12), (11, 7)]) =
     (init 4 10)\<lparr>direction := Some DOWN\<rparr> \<and>
   current_floor (fst (process_commands (init 4 10) [(5, 12), (11, 7)])) = 4"
proof -
  have n: "direction ((init 4 10)\<lparr>direction := Some DOWN\<rparr>) \<noteq> None" by simp
  have c: "current_floor (init 4 10) = 4" by (simp add: init_def)
  show ?thesis
    using n c process_commands_changes_direction_only
        [of "(init 4 10)\<lparr>direction := Some DOWN\<rparr>" "[(5, 12), (11, 7)]"]
      process_commands_changes_direction_only [of "init 4 10" "[(5, 12), (11, 7)]"]
    by simp
qed

text \<open>
  C10. Once the direction is set, no call of \<open>process_commands\<close> changes it, whatever
  the batch, and neither does any sequence of batches and moves of the car; every call
  leaves a direction set, so the direction resolved by the first call is the direction
  after any later sequence of calls and moves.
\<close>

theorem direction_set_once:
  "(direction self = Some d \<longrightarrow>
      direction (fst (process_commands self commands)) = Some d \<and>
      direction (run self events) = Some d) \<and>
   direction (fst (process_commands self commands)) \<noteq> None \<and>
   direction (run self (Batch commands # events)) =
     direction (fst (process_commands self commands))"
proof -
  have set: "direction (fst (process_commands self commands)) \<noteq> None"
    by (simp add: direction_after_process_commands split: option.splits)
  then obtain d' where d': "direction (fst (process_commands self commands)) = Some d'"
    by blast
  have "direction (run self (Batch commands # events)) = Some d'"
    using run_keeps_direction [OF d'] by simp
  moreover have "direction (fst (process_commands self commands)) = Some d"
    if "direction self = Some d"
    using that by (simp add: direction_after_process_commands)
  ultimately show ?thesis
    using set d' run_keeps_direction [of self d events] by simp
qed

theorem direction_set_once_witness:
  "direction ((init 4 10)\<lparr>direction := Some UP\<rparr>) = Some UP \<and>
   direction (run ((init 4 10)\<lparr>direction := Some UP\<rparr>)
     [Batch [(3, 12), (2, 12)], Move 3, Move 2, Batch [], Batch [(11, 1)], Move 1]) = Some UP \<and>
   direction (run (init 10 10)
     [Batch [(5, 12), (10, 12), (3, 11), (7, 11)], Move 7, Move 5, Move 3, Batch [(3, 11), (11, 9)]])
     = Some DOWN"
proof -
  have a: "direction ((init 4 10)\<lparr>direction := Some UP\<rparr>) = Some UP" by simp
  have b: "direction (fst (process_commands (init 10 10) [(5, 12), (10, 12), (3, 11), (7, 11)]))
             = Some DOWN"
    by code_simp
  show ?thesis
    using a b
      direction_set_once [of "(init 4 10)\<lparr>direction := Some UP\<rparr>" UP "[]"
        "[Batch [(3, 12), (2, 12)], Move 3, Move 2, Batch [], Batch [(11, 1)], Move 1]"]
      direction_set_once [of "init 10 10" DOWN "[(5, 12), (10, 12), (3, 11), (7, 11)]"
        "[Move 7, Move 5, Move 3, Batch [(3, 11), (11, 9)]]"]
    by simp
qed

end
